theory Spec2Isabelle
  imports Main "HOL-Library.Multiset"
begin

section \<open>The process environment (\<open>mamba/core/environment.hpp\<close>)\<close>

text \<open>
  The header is embedded as its POSIX build reads: of every \<open>#ifdef _WIN32\<close> the
  \<open>#else\<close> branch is taken. What the functions read from the operating system is made an
  explicit argument:
  \<^item> the block \<open>extern char** environ\<close>, a list of C strings \<open>NAME=VALUE\<close>;
  \<^item> the \<open>pw_dir\<close> field of \<open>getpwuid(getuid())\<close>, or \<open>None\<close> when the call returns a
    null pointer;
  \<^item> the file system, a partial map from the path strings the program passes to the
    nodes found there. A node says what the operating system answers: the path names a
    file, a directory with its entries (whose reading may break off with an error), or
    a path whose status cannot be had (no search permission, a name too long). The
    program calls the throwing overloads of \<open>fs::exists\<close>, \<open>fs::is_directory\<close> and
    \<open>fs::directory_iterator\<close>: their \<open>filesystem_error\<close> is a result of the model.

  \<open>fs::path\<close> (declared in \<open>mamba_fs.hpp\<close>, which is not among the sources) is modelled by
  its native string: building a path from a \<open>std::string\<close> and reading it back with
  \<open>string()\<close> are the identity, as in \<open>std::filesystem\<close> on POSIX.
\<close>

record process =
  environ :: "string list"
  pw_dir :: "string option"

datatype error =
    HomeNotSet      \<comment> \<open>\<open>std::runtime_error("HOME not set.")\<close>\<close>
  | NullPasswd      \<comment> \<open>\<open>getpwuid\<close> returned null and \<open>->pw_dir\<close> was read from it\<close>

definition pathsep :: string where
  "pathsep = '':''"

text \<open>
  \<open>key.c_str()\<close> hands a NUL-terminated buffer to the C library: the callee sees the
  characters before the first NUL of the \<open>std::string\<close>.
\<close>

definition c_str :: "string \<Rightarrow> string" where
  "c_str s = takeWhile (\<lambda>c. c \<noteq> CHR 0x00) s"

text \<open>
  Modelled from the spec: \<open>starts_with\<close> is declared in \<open>util.hpp\<close>, which is not among the
  sources, and the spec does not describe it; it is taken to be the prefix test its name
  and its use in \<open>shrink_user\<close> say.
\<close>

fun starts_with :: "string \<Rightarrow> string \<Rightarrow> bool" where
  "starts_with s [] = True"
| "starts_with [] (p # ps) = False"
| "starts_with (c # cs) (p # ps) = (c = p \<and> starts_with cs ps)"

text \<open>
  Modelled from the spec: \<open>mamba::split\<close> is declared in \<open>util.hpp\<close>, which is not among the
  sources, and the spec does not describe it; it is taken to cut the input at every
  occurrence of the separator, left to right, keeping empty pieces (so the empty input
  gives one empty piece). No theorem below depends on how the pieces are cut.
\<close>

function split_from :: "string \<Rightarrow> string \<Rightarrow> string \<Rightarrow> string list" where
  "split_from sep acc [] = [rev acc]"
| "split_from sep acc (c # cs) =
     (if sep \<noteq> [] \<and> starts_with (c # cs) sep
      then rev acc # split_from sep [] (drop (length sep) (c # cs))
      else split_from sep (c # acc) cs)"
  by pat_completeness auto
termination
  by (relation "measure (\<lambda>(sep, acc, s). length s)") (auto simp: neq_Nil_conv)

definition split :: "string \<Rightarrow> string \<Rightarrow> string list" where
  "split input sep = split_from sep [] input"

subsection \<open>\<open>env::get\<close>\<close>

text \<open>
  \<open>std::getenv\<close> is the C library's lookup in \<open>environ\<close>. For the empty name it returns a
  null pointer (\<open>None\<close>) without looking. For any other name it returns the value of the
  first entry that consists of the name, an equals sign and the value, and a null pointer
  when there is none. The entries of \<open>environ\<close> are C strings: they hold no NUL, and
  reading one into a \<open>std::string\<close> copies all of it.
\<close>

fun scan_environ :: "string list \<Rightarrow> string \<Rightarrow> string option" where
  "scan_environ [] name = None"
| "scan_environ (e # es) name =
     (if starts_with e (name @ ''='') then Some (drop (length name + 1) e)
      else scan_environ es name)"

definition getenv :: "string list \<Rightarrow> string \<Rightarrow> string option" where
  "getenv es name = (if name = [] then None else scan_environ es name)"

definition get :: "process \<Rightarrow> string \<Rightarrow> string option" where
  "get env key =
     (case getenv (environ env) (c_str key) of
        Some v \<Rightarrow> Some v
      | None \<Rightarrow> None)"

subsection \<open>\<open>env::home_directory\<close>, \<open>env::expand_user\<close>, \<open>env::shrink_user\<close>\<close>

definition value_or :: "string option \<Rightarrow> string \<Rightarrow> string" where
  "value_or v d = (case v of Some s \<Rightarrow> s | None \<Rightarrow> d)"

definition home_directory :: "process \<Rightarrow> error + string" where
  "home_directory env =
     (let maybe_home = value_or (get env ''HOME'') ''''
      in if maybe_home = []
         then (case pw_dir env of
                 None \<Rightarrow> Inl NullPasswd
               | Some d \<Rightarrow> if d = [] then Inl HomeNotSet else Inr d)
         else Inr maybe_home)"

text \<open>
  \<open>p[0]\<close> of an empty \<open>std::string\<close> is the terminating NUL, which is not a tilde.
  \<open>p.replace(0, 1, home)\<close> puts \<open>home\<close> in the place of the first character.
\<close>

definition expand_user :: "process \<Rightarrow> string \<Rightarrow> error + string" where
  "expand_user env path =
     (case path of
        [] \<Rightarrow> Inr path
      | c # rest \<Rightarrow>
          if c = CHR ''~''
          then (case home_directory env of
                  Inl e \<Rightarrow> Inl e
                | Inr home \<Rightarrow> Inr (home @ rest))
          else Inr path)"

definition shrink_user :: "process \<Rightarrow> string \<Rightarrow> error + string" where
  "shrink_user env path =
     (case home_directory env of
        Inl e \<Rightarrow> Inl e
      | Inr home \<Rightarrow>
          if starts_with path home then Inr (''~'' @ drop (length home) path)
          else Inr path)"

subsection \<open>\<open>env::which\<close>\<close>

text \<open>
  What the operating system answers for a path. \<open>Directory names e\<close> is a directory whose
  reading yields the entries \<open>names\<close> in this order and then ends, normally when \<open>e\<close> is
  \<open>None\<close>, with the error \<open>ec\<close> when \<open>e\<close> is \<open>Some ec\<close> (a directory that may not be opened
  is \<open>Directory [] (Some ec)\<close>). \<open>Unstatable ec\<close> is a path whose status cannot be had. A
  path the map does not hold does not exist.
\<close>

type_synonym error_code = nat

datatype node =
    File
  | Directory "string list" "error_code option"
  | Unstatable error_code

type_synonym filesystem = "string \<rightharpoonup> node"

datatype filesystem_error = FilesystemError error_code

datatype file_type = NotFound | Regular | IsDirectory

text \<open>
  \<open>fs::status(p)\<close>, on which \<open>fs::exists(p)\<close> and \<open>fs::is_directory(p)\<close> rest: a path that
  does not exist is no error, any other failure throws.
\<close>

definition status :: "filesystem \<Rightarrow> string \<Rightarrow> filesystem_error + file_type" where
  "status fs p =
     (case fs p of
        None \<Rightarrow> Inr NotFound
      | Some File \<Rightarrow> Inr Regular
      | Some (Directory names e) \<Rightarrow> Inr IsDirectory
      | Some (Unstatable ec) \<Rightarrow> Inl (FilesystemError ec))"

definition fs_exists :: "filesystem \<Rightarrow> string \<Rightarrow> filesystem_error + bool" where
  "fs_exists fs p =
     (case status fs p of Inl err \<Rightarrow> Inl err | Inr t \<Rightarrow> Inr (t \<noteq> NotFound))"

definition fs_is_directory :: "filesystem \<Rightarrow> string \<Rightarrow> filesystem_error + bool" where
  "fs_is_directory fs p =
     (case status fs p of Inl err \<Rightarrow> Inl err | Inr t \<Rightarrow> Inr (t = IsDirectory))"

text \<open>
  \<open>fs::directory_iterator(p)\<close> yields, in the directory's own order, one entry for each
  name in it; the entry's path is \<open>p / name\<close>. It throws when the directory cannot be
  opened or read: the model gives the entries yielded and the error that ends them, if
  any. Opening what is not a directory fails (\<open>ENOENT\<close> is 2, \<open>ENOTDIR\<close> is 20).
\<close>

definition path_append :: "string \<Rightarrow> string \<Rightarrow> string" where
  "path_append p name =
     (if p = [] then name
      else if last p = CHR ''/'' then p @ name
      else p @ ''/'' @ name)"

definition directory_iterator :: "filesystem \<Rightarrow> string \<Rightarrow> string list \<times> error_code option" where
  "directory_iterator fs p =
     (case fs p of
        Some (Directory names e) \<Rightarrow> (map (path_append p) names, e)
      | Some File \<Rightarrow> ([], Some 20)
      | Some (Unstatable ec) \<Rightarrow> ([], Some ec)
      | None \<Rightarrow> ([], Some 2))"

definition filename :: "string \<Rightarrow> string" where
  "filename q = rev (takeWhile (\<lambda>c. c \<noteq> CHR ''/'') (rev q))"

text \<open>
  The inner loop of \<open>which\<close>, over the entries the iterator yields: the first entry whose
  file name is \<open>exe\<close> is returned; when the entries end with an error before one is found,
  the iterator throws.
\<close>

fun find_entry :: "string \<Rightarrow> string list \<Rightarrow> error_code option
    \<Rightarrow> filesystem_error + string option" where
  "find_entry exe [] None = Inr None"
| "find_entry exe [] (Some ec) = Inl (FilesystemError ec)"
| "find_entry exe (entry # entries) e =
     (if filename entry = exe then Inr (Some entry) else find_entry exe entries e)"

text \<open>
  The outer loop of \<open>which\<close>, over the pieces of \<open>PATH\<close>. In
  \<open>!fs::exists(p) || !fs::is_directory(p)\<close> the second call is made only when the first
  returned true; an exception of either call, or of the iterator, leaves the function.
\<close>

fun search_parts :: "filesystem \<Rightarrow> string \<Rightarrow> string list \<Rightarrow> filesystem_error + string" where
  "search_parts fs exe [] = Inr []"
| "search_parts fs exe (p # parts) =
     (case fs_exists fs p of
        Inl err \<Rightarrow> Inl err
      | Inr ex \<Rightarrow>
          if \<not> ex then search_parts fs exe parts
          else (case fs_is_directory fs p of
                  Inl err \<Rightarrow> Inl err
                | Inr dir \<Rightarrow>
                    if \<not> dir then search_parts fs exe parts
                    else (case find_entry exe (fst (directory_iterator fs p))
                                 (snd (directory_iterator fs p)) of
                            Inl err \<Rightarrow> Inl err
                          | Inr (Some entry) \<Rightarrow> Inr entry
                          | Inr None \<Rightarrow> search_parts fs exe parts)))"

definition which :: "process \<Rightarrow> filesystem \<Rightarrow> string \<Rightarrow> filesystem_error + string" where
  "which env fs exe =
     (case get env ''PATH'' of
        Some path \<Rightarrow> search_parts fs exe (split path pathsep)
      | None \<Rightarrow> Inr [])"

text \<open>
  A piece \<open>p\<close> of \<open>PATH\<close> holds \<open>exe\<close> when it is an existing directory and one of the
  entries that reading it yields has the file name \<open>exe\<close>.
\<close>

definition has_entry :: "filesystem \<Rightarrow> string \<Rightarrow> string \<Rightarrow> bool" where
  "has_entry fs exe p \<longleftrightarrow>
     (case fs p of
        Some (Directory names e) \<Rightarrow> list_ex (\<lambda>n. filename (path_append p n) = exe) names
      | Some File \<Rightarrow> False
      | Some (Unstatable ec) \<Rightarrow> False
      | None \<Rightarrow> False)"

text \<open>
  A piece \<open>p\<close> of \<open>PATH\<close> raises the error \<open>ec\<close> when its status cannot be had, or when it is
  a directory whose reading ends with \<open>ec\<close> and has yielded no entry with the file name
  \<open>exe\<close> before.
\<close>

definition raises :: "filesystem \<Rightarrow> string \<Rightarrow> string \<Rightarrow> error_code option" where
  "raises fs exe p =
     (case fs p of
        Some (Unstatable ec) \<Rightarrow> Some ec
      | Some (Directory names e) \<Rightarrow>
          if list_ex (\<lambda>n. filename (path_append p n) = exe) names then None else e
      | Some File \<Rightarrow> None
      | None \<Rightarrow> None)"

section \<open>The resolution engine: index, job builder and planner\<close>

text \<open>
  The components of this section (PackageIndex, JobBuilder, TransactionPlanner) are parts
  of the repository that are not among the sources. Their definitions follow the words of
  the specification (sections 3, 4.2, 4.3 and 4.5); each says what it stands for.
\<close>

subsection \<open>Data model\<close>

text \<open>
  Modelled from the spec: the structured, comparable version of a PackageRecord (section
  3), whose representation the spec leaves open; here a list of numbers, \<open>1.2.0\<close> being
  \<open>[1, 2, 0]\<close>.
\<close>

type_synonym version = "nat list"

text \<open>
  Modelled from the spec: the operators of a MatchSpec's version constraint (section 3):
  \<open>=\<close>, \<open>>=\<close>, \<open><=\<close>, \<open>>\<close>, \<open><\<close>, \<open>!=\<close>, fuzzy \<open>~=\<close> and wildcard.
\<close>

datatype version_op = Eq | Ge | Le | Gt | Lt | Ne | Fuzzy | Wildcard

text \<open>
  Modelled from the spec: MatchSpec (section 3): the required name, the version
  constraints (comma-separated and conjunctive, section 4.1), the build-string and
  build-number constraints, the channel restriction and the optional flag.
\<close>

record MatchSpec =
  ms_name :: string
  ms_version :: "(version_op \<times> version) list"
  ms_build :: "string option"
  ms_build_number :: "nat option"
  ms_channel :: "string option"
  ms_optional :: bool

text \<open>
  Modelled from the spec: PackageRecord (section 3): name, version, build string, build
  number, channel of origin, \<open>depends\<close> and \<open>constrains\<close> MatchSpecs, content identifier,
  size and fetch URL. (\<open>constrains\<close> is a keyword of Isabelle; the field is \<open>constrained\<close>.)
\<close>

record PackageRecord =
  name :: string
  version :: version
  build_string :: string
  build_number :: nat
  channel :: string
  depends :: "MatchSpec list"
  constrained :: "MatchSpec list"
  checksum :: string
  byte_size :: nat
  url :: string

text \<open>
  Modelled from the spec: the comparison of versions, which section 3 requires and does
  not define; here the lexicographic order of the number lists.
\<close>

fun version_less :: "version \<Rightarrow> version \<Rightarrow> bool" where
  "version_less [] [] = False"
| "version_less [] (y # ys) = True"
| "version_less (x # xs) [] = False"
| "version_less (x # xs) (y # ys) = (x < y \<or> (x = y \<and> version_less xs ys))"

text \<open>
  Modelled from the spec: what one version constraint accepts. The spec names the
  operators and does not define them: the six comparisons have their meaning in the order
  above, \<open>~=\<close> accepts the versions from the bound on that agree with it before its
  last number, the wildcard those that start with the bound. No theorem below depends
  on this choice.
\<close>

fun version_sat :: "version_op \<Rightarrow> version \<Rightarrow> version \<Rightarrow> bool" where
  "version_sat Eq b v = (v = b)"
| "version_sat Ne b v = (v \<noteq> b)"
| "version_sat Ge b v = (\<not> version_less v b)"
| "version_sat Le b v = (\<not> version_less b v)"
| "version_sat Gt b v = version_less b v"
| "version_sat Lt b v = version_less v b"
| "version_sat Fuzzy b v = (\<not> version_less v b \<and> take (length b - 1) v = butlast b)"
| "version_sat Wildcard b v = (take (length b) v = b)"

text \<open>
  Modelled from the spec: a record is acceptable to a MatchSpec (glossary: ``by name plus
  version/build/channel restrictions'') when the names agree and every restriction that is
  present holds.
\<close>

definition matches :: "MatchSpec \<Rightarrow> PackageRecord \<Rightarrow> bool" where
  "matches ms r \<longleftrightarrow>
     ms_name ms = name r
     \<and> list_all (\<lambda>(oper, b). version_sat oper b (version r)) (ms_version ms)
     \<and> (case ms_build ms of None \<Rightarrow> True | Some b \<Rightarrow> build_string r = b)
     \<and> (case ms_build_number ms of None \<Rightarrow> True | Some n \<Rightarrow> build_number r = n)
     \<and> (case ms_channel ms of None \<Rightarrow> True | Some c \<Rightarrow> channel r = c)"

text \<open>
  Modelled from the spec: the MatchSpec that restricts nothing but the name.
\<close>

definition name_only :: "string \<Rightarrow> MatchSpec" where
  "name_only n =
     \<lparr>ms_name = n, ms_version = [], ms_build = None, ms_build_number = None,
      ms_channel = None, ms_optional = False\<rparr>"

subsection \<open>PackageIndex\<close>

text \<open>
  Modelled from the spec: PackageIndex (sections 3 and 4.2): the known records of all
  repositories, each with the priority of its repository, which is its registration
  order (0 for the first repository, which wins). The mapping by name and the reverse
  dependency index of section 3 are ways to look these records up and are not modelled.
\<close>

record PackageIndex =
  entries :: "(nat \<times> PackageRecord) list"
  repositories :: nat

text \<open>
  Modelled from the spec: an exact \<open>(name, version, build)\<close> collision (section 4.2).
\<close>

definition collides :: "PackageRecord \<Rightarrow> PackageRecord \<Rightarrow> bool" where
  "collides a b \<longleftrightarrow>
     name a = name b \<and> version a = version b \<and> build_string a = build_string b"

text \<open>
  Modelled from the spec: the insertion loop of \<open>add_repository\<close> (section 4.2): a record
  that collides with an entry already present is dropped, so the entry of the repository
  registered first is kept.
\<close>

fun add_records :: "nat \<Rightarrow> PackageRecord list \<Rightarrow> (nat \<times> PackageRecord) list
    \<Rightarrow> (nat \<times> PackageRecord) list" where
  "add_records prio [] es = es"
| "add_records prio (r # rs) es =
     (if list_ex (\<lambda>(p, e). collides e r) es then add_records prio rs es
      else add_records prio rs (es @ [(prio, r)]))"

text \<open>
  Modelled from the spec: \<open>add_repository(records)\<close> (section 4.2).
\<close>

definition add_repository :: "PackageRecord list \<Rightarrow> PackageIndex \<Rightarrow> PackageIndex" where
  "add_repository records idx =
     \<lparr>entries = add_records (repositories idx) records (entries idx),
      repositories = Suc (repositories idx)\<rparr>"

text \<open>
  Modelled from the spec: the candidate ordering of section 4.2: (1) version descending,
  (2) build number descending, (3) repository priority, the repository registered first
  going first.
\<close>

definition precedes :: "nat \<times> PackageRecord \<Rightarrow> nat \<times> PackageRecord \<Rightarrow> bool" where
  "precedes a b \<longleftrightarrow>
     version_less (version (snd b)) (version (snd a))
     \<or> (version (snd a) = version (snd b)
        \<and> (build_number (snd b) < build_number (snd a)
           \<or> (build_number (snd a) = build_number (snd b) \<and> fst a \<le> fst b)))"

text \<open>
  Modelled from the spec: putting one candidate in its place in an ordered sequence; the
  spec gives the order and no sorting algorithm, and insertion is the simplest.
\<close>

fun insert_candidate :: "nat \<times> PackageRecord \<Rightarrow> (nat \<times> PackageRecord) list
    \<Rightarrow> (nat \<times> PackageRecord) list" where
  "insert_candidate c [] = [c]"
| "insert_candidate c (d # ds) =
     (if precedes c d then c # d # ds else d # insert_candidate c ds)"

text \<open>
  Modelled from the spec: the candidates of a MatchSpec with their repository
  priorities: the entries of the index that the MatchSpec accepts, put in order.
\<close>

definition ranked_candidates :: "PackageIndex \<Rightarrow> MatchSpec \<Rightarrow> (nat \<times> PackageRecord) list" where
  "ranked_candidates idx ms =
     foldr insert_candidate (filter (\<lambda>(p, r). matches ms r) (entries idx)) []"

text \<open>
  Modelled from the spec: \<open>candidates(matchspec)\<close> (section 4.2), the ordered sequence
  of PackageRecords.
\<close>

definition candidates :: "PackageIndex \<Rightarrow> MatchSpec \<Rightarrow> PackageRecord list" where
  "candidates idx ms = map snd (ranked_candidates idx ms)"

subsection \<open>JobBuilder\<close>

text \<open>
  Modelled from the spec: InstalledState (section 3): the packages present in the
  environment, each with its record and its history index.
\<close>

type_synonym InstalledState = "(PackageRecord \<times> nat) list"

text \<open>
  Modelled from the spec: Solution (section 3), the ordered set of records the solver
  chose.
\<close>

type_synonym Solution = "PackageRecord list"

text \<open>
  Modelled from the spec: Job (section 3).
\<close>

datatype Job = Install MatchSpec | Remove string | Update MatchSpec | Lock string

text \<open>
  Modelled from the spec: what a user request asks for. Section 4.3 passes the requests
  as MatchSpecs and speaks of removal requests (scenario D: ``request \<open>A\<close> and \<open>not-A\<close>
  (remove)''), and Job has an install and an update form: a request is a MatchSpec with
  one of the three.
\<close>

datatype request_kind = ToInstall | ToUpdate | ToRemove

record Request =
  kind :: request_kind
  spec :: MatchSpec

text \<open>
  Modelled from the spec: the error of JobBuilder (sections 4.3 and 7).
\<close>

datatype job_error = UnsatisfiableRequest string

text \<open>
  Modelled from the spec: an unknown name (section 4.3: ``zero candidates in the
  index'').
\<close>

definition unknown_name :: "PackageIndex \<Rightarrow> string \<Rightarrow> bool" where
  "unknown_name idx n \<longleftrightarrow> candidates idx (name_only n) = []"

text \<open>
  Modelled from the spec: whether a package of that name is installed.
\<close>

definition is_installed :: "InstalledState \<Rightarrow> string \<Rightarrow> bool" where
  "is_installed installed n \<longleftrightarrow> list_ex (\<lambda>(r, h). name r = n) installed"

text \<open>
  Modelled from the spec: the jobs of the requests (section 4.3), taken in order. A
  removal request for a name that is not installed is a no-op and not an error; an
  install or update request for an unknown name fails with \<open>UnsatisfiableRequest\<close> of
  that name.
\<close>

fun request_jobs :: "PackageIndex \<Rightarrow> InstalledState \<Rightarrow> Request list \<Rightarrow> job_error + Job list" where
  "request_jobs idx installed [] = Inr []"
| "request_jobs idx installed (r # rs) =
     (let n = ms_name (spec r) in
      case kind r of
        ToRemove \<Rightarrow>
          (case request_jobs idx installed rs of
             Inl e \<Rightarrow> Inl e
           | Inr jobs \<Rightarrow> Inr (if is_installed installed n then Remove n # jobs else jobs))
      | ToInstall \<Rightarrow>
          if unknown_name idx n then Inl (UnsatisfiableRequest n)
          else (case request_jobs idx installed rs of
                  Inl e \<Rightarrow> Inl e
                | Inr jobs \<Rightarrow> Inr (Install (spec r) # jobs))
      | ToUpdate \<Rightarrow>
          if unknown_name idx n then Inl (UnsatisfiableRequest n)
          else (case request_jobs idx installed rs of
                  Inl e \<Rightarrow> Inl e
                | Inr jobs \<Rightarrow> Inr (Update (spec r) # jobs)))"



text \<open>
  Modelled from the spec: the requests that make \<open>build\<close> fail: an install or update
  request for an unknown name.
\<close>

definition unsatisfiable :: "PackageIndex \<Rightarrow> Request \<Rightarrow> bool" where
  "unsatisfiable idx r \<longleftrightarrow> kind r \<noteq> ToRemove \<and> unknown_name idx (ms_name (spec r))"

subsection \<open>TransactionPlanner\<close>

text \<open>
  Modelled from the spec: TransactionOperation (section 3).
\<close>

datatype TransactionOperation =
    Link PackageRecord
  | Unlink PackageRecord
  | Supersede PackageRecord PackageRecord
  | NoOp PackageRecord

text \<open>
  Modelled from the spec: the identity of a package, which section 4.5 compares and does
  not define; here the fields by which section 3 tells the records of a repository
  apart: name, version, build string and build number.
\<close>

definition identity :: "PackageRecord \<Rightarrow> string \<times> version \<times> string \<times> nat" where
  "identity r = (name r, version r, build_string r, build_number r)"

text \<open>
  Modelled from the spec: the uniqueness invariant of InstalledState (section 8): at most
  one installed package of a name.
\<close>

definition unique_names :: "InstalledState \<Rightarrow> bool" where
  "unique_names installed \<longleftrightarrow> distinct (map (\<lambda>(r, h). name r) installed)"

text \<open>
  Modelled from the spec: the installed package of a name.
\<close>

definition installed_named :: "InstalledState \<Rightarrow> string \<Rightarrow> PackageRecord option" where
  "installed_named installed n = map_option fst (find (\<lambda>(r, h). name r = n) installed)"

text \<open>
  Modelled from the spec: the operation of one record of the solution (section 4.5):
  \<open>Link\<close> when no package of its name is installed, \<open>NoOp\<close> when the installed one has
  the same identity, \<open>Supersede(old, new)\<close> when it has another.
\<close>

definition solution_op :: "InstalledState \<Rightarrow> PackageRecord \<Rightarrow> TransactionOperation" where
  "solution_op installed r =
     (case installed_named installed (name r) of
        None \<Rightarrow> Link r
      | Some old \<Rightarrow> if identity old = identity r then NoOp r else Supersede old r)"

text \<open>
  Modelled from the spec: \<open>TransactionPlanner.plan(solution, installed)\<close> (section 4.5):
  the operations of the records of the solution, then an \<open>Unlink\<close> for every installed
  package whose name the solution does not have (section 4.5 lets these come last). The
  topological order that section 4.5 asks of the \<open>Link\<close> operations is not modelled: the
  operations of the solution's records stand in the solution's order.
\<close>

definition plan :: "Solution \<Rightarrow> InstalledState \<Rightarrow> TransactionOperation list" where
  "plan solution installed =
     map (solution_op installed) solution
     @ map Unlink (filter (\<lambda>r. name r \<notin> set (map name solution)) (map fst installed))"

text \<open>
  A record with nothing but a name and a version, for the scenarios of section 8.
\<close>

definition package :: "string \<Rightarrow> version \<Rightarrow> PackageRecord" where
  "package n v =
     \<lparr>name = n, version = v, build_string = ''0'', build_number = 0, channel = ''main'',
      depends = [], constrained = [], checksum = [], byte_size = 0, url = []\<rparr>"

section \<open>Properties of the process environment\<close>

lemma starts_with_append: "starts_with (p @ s) p"
  by (induction p) auto

lemma starts_with_iff: "starts_with s p \<longleftrightarrow> (\<exists>t. s = p @ t)"
  by (induction s p rule: starts_with.induct) auto

lemma scan_environ_None_iff:
  "scan_environ es var = None \<longleftrightarrow> (\<forall>e \<in> set es. \<not> starts_with e (var @ ''=''))"
  by (induction es) auto

lemma scan_environ_first:
  assumes "\<forall>e \<in> set before. \<not> starts_with e (var @ ''='')"
  shows "scan_environ (before @ (var @ ''='' @ v) # after) var = Some v"
  using assms
proof (induction before)
  case Nil
  have "starts_with ((var @ ''='') @ v) (var @ ''='')" by (rule starts_with_append)
  then show ?case by simp
next
  case (Cons e before)
  then show ?case by simp
qed

lemma scan_environ_Some:
  "scan_environ es var = Some v \<Longrightarrow>
   \<exists>before after. es = before @ (var @ ''='' @ v) # after
     \<and> (\<forall>e \<in> set before. \<not> starts_with e (var @ ''=''))"
proof (induction es)
  case Nil
  then show ?case by simp
next
  case (Cons e es)
  show ?case
  proof (cases "starts_with e (var @ ''='')")
    case True
    then obtain t where t: "e = (var @ ''='') @ t" by (auto simp: starts_with_iff)
    from True Cons.prems have "v = drop (length var + 1) e" by simp
    with t have "e = var @ ''='' @ v" by simp
    then have "e # es = [] @ (var @ ''='' @ v) # es
        \<and> (\<forall>x \<in> set []. \<not> starts_with x (var @ ''=''))" by simp
    then show ?thesis by blast
  next
    case False
    with Cons.prems have "scan_environ es var = Some v" by simp
    from Cons.IH [OF this] obtain before after where
      es: "es = before @ (var @ ''='' @ v) # after" and
      nb: "\<forall>x \<in> set before. \<not> starts_with x (var @ ''='')" by blast
    from es nb False have "e # es = (e # before) @ (var @ ''='' @ v) # after
        \<and> (\<forall>x \<in> set (e # before). \<not> starts_with x (var @ ''=''))" by simp
    then show ?thesis by blast
  qed
qed

lemma scan_environ_Some_iff:
  "scan_environ es var = Some v \<longleftrightarrow>
   (\<exists>before after. es = before @ (var @ ''='' @ v) # after
     \<and> (\<forall>e \<in> set before. \<not> starts_with e (var @ ''='')))"
  using scan_environ_Some scan_environ_first by blast

lemma c_str_id: "CHR 0x00 \<notin> set key \<Longrightarrow> c_str key = key"
  by (auto simp: c_str_def takeWhile_eq_all_conv)

lemma c_str_truncates: "CHR 0x00 \<notin> set k \<Longrightarrow> c_str (k @ CHR 0x00 # junk) = k"
proof -
  assume n: "CHR 0x00 \<notin> set k"
  have "c_str (k @ CHR 0x00 # junk) = takeWhile (\<lambda>c. c \<noteq> CHR 0x00) k"
    by (simp add: c_str_def takeWhile_tail)
  also have "\<dots> = k" using n by (auto simp: takeWhile_eq_all_conv)
  finally show ?thesis .
qed

lemma get_getenv: "get env key = getenv (environ env) (c_str key)"
  by (simp add: get_def split: option.splits)

lemma home_directory_nonempty: "home_directory env = Inr h \<Longrightarrow> h \<noteq> []"
  by (auto simp: home_directory_def Let_def split: option.splits if_splits)

lemma filename_path_append:
  "CHR ''/'' \<notin> set leaf \<Longrightarrow> filename (path_append p leaf) = leaf"
proof -
  assume n: "CHR ''/'' \<notin> set leaf"
  have tw0: "takeWhile (\<lambda>c. c \<noteq> CHR ''/'') (rev leaf) = rev leaf"
    using n by (auto simp: takeWhile_eq_all_conv)
  have tw: "\<And>q. takeWhile (\<lambda>c. c \<noteq> CHR ''/'') (rev leaf @ CHR ''/'' # q) = rev leaf"
    by (simp add: takeWhile_tail tw0)
  show ?thesis
  proof (cases "p = []")
    case True
    then show ?thesis by (simp add: path_append_def filename_def tw0)
  next
    case False
    show ?thesis
    proof (cases "last p = CHR ''/''")
      case True
      with False obtain q where q: "p = q @ [CHR ''/'']"
        by (metis append_butlast_last_id)
      have "filename (p @ leaf) = leaf"
        unfolding q by (simp add: filename_def tw)
      then show ?thesis
        using False True by (simp add: path_append_def)
    next
      case nl: False
      then show ?thesis using False by (simp add: path_append_def filename_def tw)
    qed
  qed
qed

lemma find_entry_found:
  "\<exists>x \<in> set ents. filename x = exe \<Longrightarrow>
   \<exists>entry. find_entry exe ents e = Inr (Some entry)
     \<and> entry \<in> set ents \<and> filename entry = exe"
  by (induction ents) auto

lemma find_entry_not_found:
  "\<forall>x \<in> set ents. filename x \<noteq> exe \<Longrightarrow>
   find_entry exe ents e
     = (case e of None \<Rightarrow> Inr None | Some ec \<Rightarrow> Inl (FilesystemError ec))"
  by (induction ents) (auto split: option.splits)

lemma has_entry_Directory:
  "has_entry fs exe p \<longleftrightarrow>
   (\<exists>names e. fs p = Some (Directory names e)
      \<and> (\<exists>x \<in> set (map (path_append p) names). filename x = exe))"
  by (auto simp: has_entry_def list_ex_iff split: option.splits node.splits)

lemma piece_hit:
  assumes "has_entry fs exe p"
  shows "\<exists>entry. search_parts fs exe (p # rest) = Inr entry
           \<and> entry \<in> set (fst (directory_iterator fs p)) \<and> filename entry = exe"
proof -
  from assms obtain names e where
    d: "fs p = Some (Directory names e)" and
    m: "\<exists>x \<in> set (map (path_append p) names). filename x = exe"
    unfolding has_entry_Directory by blast
  from find_entry_found [OF m, of e] obtain entry where
    f: "find_entry exe (map (path_append p) names) e = Inr (Some entry)" and
    i: "entry \<in> set (map (path_append p) names)" and n: "filename entry = exe"
    by blast
  have "search_parts fs exe (p # rest) = Inr entry"
    using d f by (simp add: fs_exists_def fs_is_directory_def status_def directory_iterator_def)
  moreover have "entry \<in> set (fst (directory_iterator fs p))"
    using d i by (simp add: directory_iterator_def)
  ultimately show ?thesis using n by blast
qed

lemma piece_raises:
  assumes "raises fs exe p = Some ec"
  shows "search_parts fs exe (p # rest) = Inl (FilesystemError ec)"
proof (cases "fs p")
  case None
  with assms show ?thesis by (simp add: raises_def)
next
  case (Some n)
  show ?thesis
  proof (cases n)
    case File
    with Some assms show ?thesis by (simp add: raises_def)
  next
    case (Unstatable ec')
    with Some assms show ?thesis
      by (simp add: raises_def fs_exists_def status_def)
  next
    case (Directory names e)
    with Some assms have
      nm: "\<forall>x \<in> set (map (path_append p) names). filename x \<noteq> exe" and e: "e = Some ec"
      by (auto simp: raises_def list_ex_iff split: if_splits)
    from find_entry_not_found [OF nm, of e] e
    have "find_entry exe (map (path_append p) names) e = Inl (FilesystemError ec)" by simp
    with Some Directory show ?thesis
      by (simp add: fs_exists_def fs_is_directory_def status_def directory_iterator_def)
  qed
qed

lemma piece_quiet:
  assumes "\<not> has_entry fs exe p" and "raises fs exe p = None"
  shows "search_parts fs exe (p # rest) = search_parts fs exe rest"
proof (cases "fs p")
  case None
  then show ?thesis by (simp add: fs_exists_def status_def)
next
  case (Some n)
  show ?thesis
  proof (cases n)
    case File
    with Some show ?thesis by (simp add: fs_exists_def fs_is_directory_def status_def)
  next
    case (Unstatable ec')
    with Some assms show ?thesis by (simp add: raises_def)
  next
    case (Directory names e)
    with Some assms have
      nm: "\<forall>x \<in> set (map (path_append p) names). filename x \<noteq> exe" and e: "e = None"
      by (auto simp: has_entry_def raises_def list_ex_iff)
    from find_entry_not_found [OF nm, of e] e
    have "find_entry exe (map (path_append p) names) e = Inr None" by simp
    with Some Directory show ?thesis
      by (simp add: fs_exists_def fs_is_directory_def status_def directory_iterator_def)
  qed
qed

lemma search_parts_skip:
  "\<forall>q \<in> set before. \<not> has_entry fs exe q \<and> raises fs exe q = None \<Longrightarrow>
   search_parts fs exe (before @ rest) = search_parts fs exe rest"
proof (induction before)
  case Nil
  show ?case by simp
next
  case (Cons q before)
  then have "search_parts fs exe (before @ rest) = search_parts fs exe rest" by simp
  moreover from Cons.prems have "\<not> has_entry fs exe q" and "raises fs exe q = None"
    by simp_all
  ultimately show ?case using piece_quiet [of fs exe q "before @ rest"] by simp
qed

lemma has_entry_names:
  assumes "fs p = Some (Directory names e)" and "\<forall>n \<in> set names. CHR ''/'' \<notin> set n"
  shows "has_entry fs exe p \<longleftrightarrow> exe \<in> set names"
  using assms by (auto simp: has_entry_def list_ex_iff filename_path_append)

text \<open>
  C9. \<open>env::get\<close> is a lookup and nothing else. It returns what \<open>getenv\<close> returns for
  \<open>key.c_str()\<close>: \<open>Some value\<close> exactly when \<open>getenv\<close> is non-null with that value, \<open>None\<close>
  exactly when it is null. What is looked up is the key up to its first NUL: a key
  \<open>k\<close>, NUL and anything behind give what \<open>k\<close> gives. For a key \<open>k\<close> without NUL the result is
  \<open>Some v\<close> exactly when \<open>k\<close> is not empty and the first entry of \<open>environ\<close> that starts with
  \<open>k\<close> and an equals sign is \<open>k=v\<close>, and \<open>None\<close> exactly when \<open>k\<close> is empty or no entry starts
  with \<open>k\<close> and an equals sign. The result type has no error: the function neither throws
  nor returns a partial value.
\<close>

theorem get_lookup:
  "get env key = getenv (environ env) (c_str key)
   \<and> (CHR 0x00 \<notin> set k \<longrightarrow>
        get env (k @ CHR 0x00 # junk) = get env k
      \<and> (get env k = Some v \<longleftrightarrow>
           k \<noteq> [] \<and> (\<exists>before after. environ env = before @ (k @ ''='' @ v) # after
                        \<and> (\<forall>e \<in> set before. \<not> starts_with e (k @ ''=''))))
      \<and> (get env k = None \<longleftrightarrow>
           k = [] \<or> (\<forall>e \<in> set (environ env). \<not> starts_with e (k @ ''=''))))"
proof (intro conjI impI)
  show "get env key = getenv (environ env) (c_str key)" by (rule get_getenv)
next
  assume n: "CHR 0x00 \<notin> set k"
  show "get env (k @ CHR 0x00 # junk) = get env k"
    unfolding get_getenv c_str_truncates [OF n] c_str_id [OF n] ..
  show "get env k = Some v \<longleftrightarrow>
      k \<noteq> [] \<and> (\<exists>before after. environ env = before @ (k @ ''='' @ v) # after
                   \<and> (\<forall>e \<in> set before. \<not> starts_with e (k @ ''='')))"
    unfolding get_getenv c_str_id [OF n] getenv_def
    by (simp add: scan_environ_Some_iff)
  show "get env k = None \<longleftrightarrow>
      k = [] \<or> (\<forall>e \<in> set (environ env). \<not> starts_with e (k @ ''=''))"
    unfolding get_getenv c_str_id [OF n] getenv_def
    by (simp add: scan_environ_None_iff)
qed

theorem get_lookup_witness:
  "get \<lparr>environ = [''=foo'', ''A=1'', ''HOME=/root'', ''A=2''], pw_dir = None\<rparr> ''A'' = Some ''1''
   \<and> get \<lparr>environ = [''=foo'', ''A=1'', ''HOME=/root'', ''A=2''], pw_dir = None\<rparr>
        (''A'' @ CHR 0x00 # ''zz'') = Some ''1''
   \<and> get \<lparr>environ = [''=foo'', ''A=1'', ''HOME=/root'', ''A=2''], pw_dir = None\<rparr> [] = None
   \<and> get \<lparr>environ = [''=foo'', ''A=1'', ''HOME=/root'', ''A=2''], pw_dir = None\<rparr> ''B'' = None"
proof -
  let ?env = "\<lparr>environ = [''=foo'', ''A=1'', ''HOME=/root'', ''A=2''], pw_dir = None\<rparr>"
  have split_A: "environ ?env = [''=foo''] @ (''A'' @ ''='' @ ''1'') # [''HOME=/root'', ''A=2'']
      \<and> (\<forall>e \<in> set [''=foo'']. \<not> starts_with e (''A'' @ ''=''))"
    by simp
  have n: "CHR 0x00 \<notin> set ''A''" by simp
  note L = get_lookup [of ?env "''A''" "''A''" "''zz''" "''1''", THEN conjunct2, rule_format, OF n]
  have a: "get ?env ''A'' = Some ''1''"
    using L split_A by blast
  have z: "get ?env (''A'' @ CHR 0x00 # ''zz'') = Some ''1''"
    using L a by simp
  have n0: "CHR 0x00 \<notin> set []" by simp
  note E = get_lookup [of ?env "[]" "[]" "[]" "[]", THEN conjunct2, rule_format, OF n0]
  have e: "get ?env [] = None"
    using E by blast
  have nB: "CHR 0x00 \<notin> set ''B''" by simp
  note B = get_lookup [of ?env "''B''" "''B''" "[]" "[]", THEN conjunct2, rule_format, OF nB]
  have "\<forall>x \<in> set (environ ?env). \<not> starts_with x (''B'' @ ''='')" by simp
  with B have b: "get ?env ''B'' = None" by blast
  from a z e b show ?thesis by simp
qed

text \<open>
  C8. Tilde expansion round-trips. For a path that starts with a tilde, when
  \<open>home_directory\<close> returns the same string \<open>h\<close> in the call made by \<open>expand_user\<close> and in the
  call made by \<open>shrink_user\<close> (it returns only non-empty strings), \<open>expand_user\<close> puts \<open>h\<close>
  in the place of the tilde and \<open>shrink_user\<close> of the result gives the original path back.
  A path that does not start with a tilde (the empty path too) is returned unchanged by
  \<open>expand_user\<close>, which then does not call \<open>home_directory\<close> at all.
\<close>

theorem expand_shrink:
  "(home_directory env1 = Inr h \<longrightarrow> home_directory env2 = Inr h \<longrightarrow>
      h \<noteq> [] \<and>
      expand_user env1 (CHR ''~'' # rest) = Inr (h @ rest) \<and>
      shrink_user env2 (h @ rest) = Inr (CHR ''~'' # rest))
   \<and> ((\<forall>rest. path \<noteq> CHR ''~'' # rest) \<longrightarrow> expand_user env1 path = Inr path)"
  using home_directory_nonempty [of env1 h]
  by (auto simp: expand_user_def shrink_user_def starts_with_append split: list.splits)

theorem expand_shrink_witness:
  "expand_user \<lparr>environ = [''HOME=/root''], pw_dir = None\<rparr> ''~/env'' = Inr ''/root/env''
   \<and> shrink_user \<lparr>environ = [''PATH=/bin''], pw_dir = Some ''/root''\<rparr> ''/root/env'' = Inr ''~/env''
   \<and> expand_user \<lparr>environ = [''HOME=/root''], pw_dir = None\<rparr> ''a~'' = Inr ''a~''"
  using expand_shrink [of "\<lparr>environ = [''HOME=/root''], pw_dir = None\<rparr>" "''/root''"
      "\<lparr>environ = [''PATH=/bin''], pw_dir = Some ''/root''\<rparr>" "''/env''" "''a~''"]
  by (simp add: home_directory_def value_or_def get_def getenv_def c_str_def)

text \<open>
  C10, as amended. \<open>env::which\<close> returns the empty path when \<open>PATH\<close> is unset. Otherwise
  it goes through the pieces of \<open>PATH\<close> (cut at the path separator) in order, passing
  over the pieces that do not exist, are not directories or hold no entry with the file
  name \<open>exe\<close>, as long as no file-system query fails:
  \<^item> when every piece is passed over in this way, it returns the empty path;
  \<^item> when the first piece not passed over holds \<open>exe\<close>, it returns an entry of that piece
    whose file name is \<open>exe\<close> (the first that reading the directory yields);
  \<^item> when the first piece not passed over raises an error (its status cannot be had, or
    reading it fails before an entry with the file name \<open>exe\<close> is found), the
    \<open>filesystem_error\<close> leaves \<open>which\<close> and no path is returned, whatever the later pieces
    hold.
\<close>

theorem which_spec:
  "(get env ''PATH'' = None \<longrightarrow> which env fs exe = Inr [])
   \<and> (\<forall>path. get env ''PATH'' = Some path \<longrightarrow>
         ((\<forall>p \<in> set (split path pathsep). \<not> has_entry fs exe p \<and> raises fs exe p = None)
            \<longrightarrow> which env fs exe = Inr [])
       \<and> (\<forall>before p after.
             split path pathsep = before @ p # after
             \<and> (\<forall>q \<in> set before. \<not> has_entry fs exe q \<and> raises fs exe q = None)
             \<longrightarrow> (has_entry fs exe p \<longrightarrow>
                    (\<exists>entry. which env fs exe = Inr entry
                       \<and> entry \<in> set (fst (directory_iterator fs p))
                       \<and> filename entry = exe))
                \<and> (\<forall>ec. raises fs exe p = Some ec
                      \<longrightarrow> which env fs exe = Inl (FilesystemError ec))))"
proof (intro conjI allI impI)
  assume "get env ''PATH'' = None"
  then show "which env fs exe = Inr []" by (simp add: which_def)
next
  fix path
  assume g: "get env ''PATH'' = Some path"
    and quiet: "\<forall>p \<in> set (split path pathsep). \<not> has_entry fs exe p \<and> raises fs exe p = None"
  have "search_parts fs exe (split path pathsep @ []) = search_parts fs exe []"
    using quiet by (rule search_parts_skip)
  then show "which env fs exe = Inr []" using g by (simp add: which_def)
next
  fix path before p after
  assume g: "get env ''PATH'' = Some path"
    and sp: "split path pathsep = before @ p # after
      \<and> (\<forall>q \<in> set before. \<not> has_entry fs exe q \<and> raises fs exe q = None)"
    and h: "has_entry fs exe p"
  from sp have "search_parts fs exe (before @ p # after) = search_parts fs exe (p # after)"
    using search_parts_skip by blast
  with g sp have "which env fs exe = search_parts fs exe (p # after)"
    by (simp add: which_def)
  with piece_hit [OF h, of after]
  show "\<exists>entry. which env fs exe = Inr entry
      \<and> entry \<in> set (fst (directory_iterator fs p)) \<and> filename entry = exe"
    by simp
next
  fix path before p after ec
  assume g: "get env ''PATH'' = Some path"
    and sp: "split path pathsep = before @ p # after
      \<and> (\<forall>q \<in> set before. \<not> has_entry fs exe q \<and> raises fs exe q = None)"
    and r: "raises fs exe p = Some ec"
  from sp have "search_parts fs exe (before @ p # after) = search_parts fs exe (p # after)"
    using search_parts_skip by blast
  with g sp have "which env fs exe = search_parts fs exe (p # after)"
    by (simp add: which_def)
  with piece_raises [OF r, of after]
  show "which env fs exe = Inl (FilesystemError ec)" by simp
qed

theorem which_spec_witness:
  "which \<lparr>environ = [''PATH=/opt:/usr/bin:/bin''], pw_dir = None\<rparr>
     [''/usr/bin'' \<mapsto> Directory [''env'', ''ls''] None, ''/bin'' \<mapsto> Directory [''ls''] None,
      ''/opt'' \<mapsto> File] ''ls'' = Inr ''/usr/bin/ls''"
proof -
  let ?env = "\<lparr>environ = [''PATH=/opt:/usr/bin:/bin''], pw_dir = None\<rparr>"
  let ?fs = "[''/usr/bin'' \<mapsto> Directory [''env'', ''ls''] None,
      ''/bin'' \<mapsto> Directory [''ls''] None, ''/opt'' \<mapsto> File]"
  have g: "get ?env ''PATH'' = Some ''/opt:/usr/bin:/bin''"
    by (simp add: get_def getenv_def c_str_def)
  have parts: "split ''/opt:/usr/bin:/bin'' pathsep = [''/opt''] @ ''/usr/bin'' # [''/bin'']"
    by (simp add: split_def pathsep_def)
  have opt: "\<not> has_entry ?fs ''ls'' ''/opt''" "raises ?fs ''ls'' ''/opt'' = None"
    by (simp_all add: has_entry_def raises_def)
  have usr: "has_entry ?fs ''ls'' ''/usr/bin''"
    by (simp add: has_entry_def path_append_def filename_def)
  from which_spec [of ?env ?fs "''ls''"] g parts opt usr
  obtain entry where w: "which ?env ?fs ''ls'' = Inr entry"
    and m: "entry \<in> set (fst (directory_iterator ?fs ''/usr/bin''))"
    and f: "filename entry = ''ls''"
    by (metis empty_iff empty_set set_ConsD)
  from m f have "entry = ''/usr/bin/ls''"
    by (auto simp: directory_iterator_def path_append_def filename_def)
  with w show ?thesis by simp
qed

text \<open>
  The claim as it stands fails where a query fails: with \<open>PATH=/locked:/open\<close>, \<open>/locked\<close> a
  directory that may not be read (\<open>EACCES\<close> is 13) and \<open>/open\<close> a directory that holds
  \<open>ls\<close>, \<open>which\<close> returns no path: it throws. So it does when the status of a piece
  cannot be had (\<open>ENAMETOOLONG\<close> is 36).
\<close>

theorem which_throws:
  "has_entry [''/locked'' \<mapsto> Directory [] (Some 13), ''/open'' \<mapsto> Directory [''ls''] None]
     ''ls'' ''/open''
   \<and> which \<lparr>environ = [''PATH=/locked:/open''], pw_dir = None\<rparr>
        [''/locked'' \<mapsto> Directory [] (Some 13), ''/open'' \<mapsto> Directory [''ls''] None] ''ls''
      = Inl (FilesystemError 13)
   \<and> which \<lparr>environ = [''PATH=/locked:/open''], pw_dir = None\<rparr>
        [''/locked'' \<mapsto> Directory [] (Some 13), ''/open'' \<mapsto> Directory [''ls''] None] ''ls''
      \<noteq> Inr ''/open/ls''
   \<and> which \<lparr>environ = [''PATH=/far:/open''], pw_dir = None\<rparr>
        [''/far'' \<mapsto> Unstatable 36, ''/open'' \<mapsto> Directory [''ls''] None] ''ls''
      = Inl (FilesystemError 36)"
  by (simp add: has_entry_def which_def get_def getenv_def c_str_def split_def pathsep_def
      fs_exists_def fs_is_directory_def status_def directory_iterator_def path_append_def
      filename_def)

section \<open>Properties of the resolution engine\<close>

subsection \<open>The candidate ordering\<close>

lemma version_less_irrefl: "\<not> version_less v v"
  by (induction v) auto

lemma version_less_trans:
  "version_less u v \<Longrightarrow> version_less v w \<Longrightarrow> version_less u w"
proof (induction u v arbitrary: w rule: version_less.induct)
  case 1
  then show ?case by simp
next
  case (2 y ys)
  then show ?case by (cases w) auto
next
  case (3 x xs)
  then show ?case by simp
next
  case (4 x xs y ys)
  then show ?case by (cases w) auto
qed

lemma version_less_total: "version_less u v \<or> u = v \<or> version_less v u"
  by (induction u v rule: version_less.induct) auto

lemma key_total:
  fixes ba bb pa pb :: nat
  shows "(version_less vb va \<or> (va = vb \<and> (bb < ba \<or> (ba = bb \<and> pa \<le> pb))))
       \<or> (version_less va vb \<or> (vb = va \<and> (ba < bb \<or> (bb = ba \<and> pb \<le> pa))))"
proof -
  consider "version_less va vb" | "va = vb" | "version_less vb va"
    using version_less_total by blast
  then show ?thesis
  proof cases
    case 2
    then show ?thesis by (simp add: version_less_irrefl) linarith
  qed simp_all
qed

lemma key_trans:
  fixes ba bb bc pa pb pc :: nat
  assumes "version_less vb va \<or> (va = vb \<and> (bb < ba \<or> (ba = bb \<and> pa \<le> pb)))"
    and "version_less vc vb \<or> (vb = vc \<and> (bc < bb \<or> (bb = bc \<and> pb \<le> pc)))"
  shows "version_less vc va \<or> (va = vc \<and> (bc < ba \<or> (ba = bc \<and> pa \<le> pc)))"
proof (cases "va = vb")
  case eq1: True
  show ?thesis
  proof (cases "vb = vc")
    case True
    with eq1 assms show ?thesis by (simp add: version_less_irrefl) linarith
  next
    case False
    with eq1 assms show ?thesis by simp
  qed
next
  case ne1: False
  with assms have l1: "version_less vb va" by simp
  show ?thesis
  proof (cases "vb = vc")
    case True
    with l1 show ?thesis by simp
  next
    case False
    with assms have "version_less vc vb" by simp
    with l1 show ?thesis using version_less_trans by blast
  qed
qed

lemma precedes_total: "precedes a b \<or> precedes b a"
  unfolding precedes_def by (rule key_total)

lemma precedes_trans: "precedes a b \<Longrightarrow> precedes b c \<Longrightarrow> precedes a c"
  unfolding precedes_def by (rule key_trans)

lemma set_insert_candidate: "set (insert_candidate c ds) = insert c (set ds)"
  by (induction ds) auto

lemma sorted_insert_candidate:
  "sorted_wrt precedes ds \<Longrightarrow> sorted_wrt precedes (insert_candidate c ds)"
proof (induction ds)
  case Nil
  then show ?case by simp
next
  case (Cons d ds)
  from Cons.prems have tail: "sorted_wrt precedes ds" and head: "\<forall>e \<in> set ds. precedes d e"
    by simp_all
  show ?case
  proof (cases "precedes c d")
    case True
    have "\<forall>e \<in> set (d # ds). precedes c e"
    proof
      fix e assume "e \<in> set (d # ds)"
      then consider "e = d" | "e \<in> set ds" by auto
      then show "precedes c e"
      proof cases
        case 1
        with True show ?thesis by simp
      next
        case 2
        with head have "precedes d e" by blast
        with True show ?thesis by (rule precedes_trans)
      qed
    qed
    with Cons.prems have "sorted_wrt precedes (c # d # ds)"
      by (simp only: sorted_wrt.simps) blast
    with True show ?thesis by simp
  next
    case False
    then have dc: "precedes d c" using precedes_total by blast
    have "\<forall>e \<in> set (insert_candidate c ds). precedes d e"
      using dc head by (simp add: set_insert_candidate)
    with Cons.IH [OF tail] have "sorted_wrt precedes (d # insert_candidate c ds)"
      by simp
    with False show ?thesis by simp
  qed
qed

lemma sorted_foldr_insert: "sorted_wrt precedes (foldr insert_candidate xs [])"
  by (induction xs) (auto intro: sorted_insert_candidate)

lemma set_foldr_insert: "set (foldr insert_candidate xs []) = set xs"
  by (induction xs) (auto simp: set_insert_candidate)

lemma mset_insert_candidate: "mset (insert_candidate c ds) = add_mset c (mset ds)"
  by (induction ds) auto

lemma mset_foldr_insert: "mset (foldr insert_candidate xs []) = mset xs"
  by (induction xs) (auto simp: mset_insert_candidate)

text \<open>
  C6. For every MatchSpec, \<open>candidates\<close> returns the records of the index that the
  MatchSpec accepts, each entry once, sorted by version descending, then build number
  descending, then repository priority (registration order, the first repository first).
  The records come without their priorities, so the order is stated twice: with the
  priorities on \<open>ranked_candidates\<close>, of which \<open>candidates\<close> is the projection, and for
  version and build number on \<open>candidates\<close> itself.
\<close>

theorem candidates_sorted:
  "candidates idx ms = map snd (ranked_candidates idx ms)
   \<and> sorted_wrt precedes (ranked_candidates idx ms)
   \<and> sorted_wrt (\<lambda>a b. version_less (version b) (version a)
         \<or> (version a = version b \<and> build_number b \<le> build_number a)) (candidates idx ms)
   \<and> set (ranked_candidates idx ms) = {(p, r) \<in> set (entries idx). matches ms r}
   \<and> mset (ranked_candidates idx ms)
       = mset (filter (\<lambda>(p, r). matches ms r) (entries idx))"
proof -
  let ?weak = "\<lambda>a b. version_less (version b) (version a)
         \<or> (version a = version b \<and> build_number b \<le> build_number a)"
  have c: "candidates idx ms = map snd (ranked_candidates idx ms)"
    by (simp add: candidates_def ranked_candidates_def)
  have s: "sorted_wrt precedes (ranked_candidates idx ms)"
    by (simp add: ranked_candidates_def sorted_foldr_insert)
  have "sorted_wrt (\<lambda>a b. ?weak (snd a) (snd b)) (ranked_candidates idx ms)"
  proof (rule sorted_wrt_mono_rel [OF _ s])
    fix a b :: "nat \<times> PackageRecord"
    assume "precedes a b"
    then show "?weak (snd a) (snd b)"
      unfolding precedes_def by linarith
  qed
  then have r: "sorted_wrt ?weak (candidates idx ms)"
    unfolding c sorted_wrt_map .
  have "set (ranked_candidates idx ms) = set (filter (\<lambda>(p, r). matches ms r) (entries idx))"
    unfolding ranked_candidates_def by (rule set_foldr_insert)
  also have "\<dots> = {(p, r) \<in> set (entries idx). matches ms r}"
    by auto
  finally have m: "set (ranked_candidates idx ms) = {(p, r) \<in> set (entries idx). matches ms r}" .
  have l: "mset (ranked_candidates idx ms)
       = mset (filter (\<lambda>(p, r). matches ms r) (entries idx))"
    unfolding ranked_candidates_def by (rule mset_foldr_insert)
  show ?thesis
    by (intro conjI c s r m l)
qed

theorem candidates_sorted_witness:
  "candidates
     \<lparr>entries = [(0, package ''A'' [1, 0]), (0, package ''A'' [2, 0]), (1, package ''A'' [2, 0]),
                 (1, package ''B'' [3])],
      repositories = 2\<rparr> (name_only ''A'')
   = [package ''A'' [2, 0], package ''A'' [2, 0], package ''A'' [1, 0]]"
proof -
  let ?idx = "\<lparr>entries = [(0, package ''A'' [1, 0]), (0, package ''A'' [2, 0]),
      (1, package ''A'' [2, 0]), (1, package ''B'' [3])], repositories = 2\<rparr>"
  have "ranked_candidates ?idx (name_only ''A'')
      = [(0, package ''A'' [2, 0]), (1, package ''A'' [2, 0]), (0, package ''A'' [1, 0])]"
    by (simp add: ranked_candidates_def matches_def name_only_def package_def precedes_def)
  with candidates_sorted [of ?idx "name_only ''A''"] show ?thesis by simp
qed

subsection \<open>JobBuilder fails fast\<close>






lemma request_jobs_all_satisfiable:
  "find (unsatisfiable idx) requests = None \<Longrightarrow>
   \<exists>jobs. request_jobs idx installed requests = Inr jobs"
proof (induction requests)
  case Nil
  then show ?case by simp
next
  case (Cons q requests)
  then have nq: "\<not> unsatisfiable idx q" and "find (unsatisfiable idx) requests = None"
    by (auto split: if_splits)
  with Cons.IH obtain jobs where "request_jobs idx installed requests = Inr jobs" by blast
  with nq show ?case
    by (cases "kind q") (auto simp: unsatisfiable_def Let_def)
qed




subsection \<open>The plan is the difference of solution and installed state\<close>

lemma find_name_Some:
  assumes "unique_names installed" and "(old, h) \<in> set installed"
  shows "find (\<lambda>(r, h). name r = name old) installed = Some (old, h)"
  using assms
proof (induction installed)
  case Nil
  then show ?case by simp
next
  case (Cons e installed)
  obtain r k where e: "e = (r, k)" by (cases e)
  show ?case
  proof (cases "(old, h) = e")
    case True
    then show ?thesis using e by auto
  next
    case False
    with Cons.prems have mem: "(old, h) \<in> set installed" by simp
    from Cons.prems e have "name r \<notin> set (map (\<lambda>(r, h). name r) installed)"
      and u: "unique_names installed"
      by (auto simp: unique_names_def)
    with mem have "name r \<noteq> name old" by force
    with Cons.IH [OF u mem] e show ?thesis by simp
  qed
qed

lemma installed_named_None:
  "installed_named installed n = None \<longleftrightarrow> n \<notin> name ` fst ` set installed"
  by (force simp: installed_named_def find_None_iff)

lemma installed_named_Some:
  "installed_named installed n = Some old \<Longrightarrow> old \<in> fst ` set installed \<and> name old = n"
  by (force simp: installed_named_def find_Some_iff in_set_conv_nth)

lemma installed_named_unique:
  "unique_names installed \<Longrightarrow> old \<in> fst ` set installed \<Longrightarrow>
   installed_named installed (name old) = Some old"
  by (auto simp: installed_named_def dest: find_name_Some)

lemma solution_op_Link:
  "solution_op installed r = Link p \<longleftrightarrow> p = r \<and> installed_named installed (name r) = None"
  by (auto simp: solution_op_def split: option.splits)

lemma solution_op_NoOp:
  "solution_op installed r = NoOp p \<longleftrightarrow>
     p = r \<and> (\<exists>old. installed_named installed (name r) = Some old \<and> identity old = identity r)"
  by (auto simp: solution_op_def split: option.splits)

lemma solution_op_Supersede:
  "solution_op installed r = Supersede old new \<longleftrightarrow>
     new = r \<and> installed_named installed (name r) = Some old \<and> identity old \<noteq> identity r"
  by (auto simp: solution_op_def split: option.splits)

lemma solution_op_Unlink: "solution_op installed r \<noteq> Unlink p"
  by (simp add: solution_op_def split: option.splits)

lemma in_plan_iff:
  "x \<in> set (plan solution installed)
     \<longleftrightarrow> (\<exists>r \<in> set solution. solution_op installed r = x)
         \<or> (\<exists>p \<in> fst ` set installed. name p \<notin> name ` set solution \<and> x = Unlink p)"
  by (auto simp: plan_def)

lemma plan_Unlink:
  "Unlink p \<in> set (plan solution installed)
     \<longleftrightarrow> p \<in> fst ` set installed \<and> name p \<notin> name ` set solution"
  unfolding in_plan_iff by (auto simp: solution_op_Unlink)

lemma plan_Link:
  "Link p \<in> set (plan solution installed)
     \<longleftrightarrow> p \<in> set solution \<and> name p \<notin> name ` fst ` set installed"
  unfolding in_plan_iff solution_op_Link installed_named_None by auto

lemma plan_NoOp:
  assumes "unique_names installed"
  shows "NoOp p \<in> set (plan solution installed)
     \<longleftrightarrow> p \<in> set solution \<and> (\<exists>old \<in> fst ` set installed. identity old = identity p)"
proof -
  have named: "(\<exists>old. installed_named installed (name p) = Some old \<and> identity old = identity p)
      \<longleftrightarrow> (\<exists>old \<in> fst ` set installed. identity old = identity p)"
  proof
    assume "\<exists>old. installed_named installed (name p) = Some old \<and> identity old = identity p"
    then show "\<exists>old \<in> fst ` set installed. identity old = identity p"
      using installed_named_Some by blast
  next
    assume "\<exists>old \<in> fst ` set installed. identity old = identity p"
    then obtain old where o: "old \<in> fst ` set installed" and i: "identity old = identity p"
      by blast
    from i have "name old = name p" by (simp add: identity_def)
    with installed_named_unique [OF assms o]
    have "installed_named installed (name p) = Some old" by simp
    with i show "\<exists>old. installed_named installed (name p) = Some old \<and> identity old = identity p"
      by blast
  qed
  have "NoOp p \<in> set (plan solution installed)
      \<longleftrightarrow> p \<in> set solution
          \<and> (\<exists>old. installed_named installed (name p) = Some old \<and> identity old = identity p)"
    unfolding in_plan_iff solution_op_NoOp by auto
  then show ?thesis unfolding named .
qed

lemma plan_Supersede:
  assumes "unique_names installed"
  shows "Supersede old new \<in> set (plan solution installed)
     \<longleftrightarrow> new \<in> set solution \<and> old \<in> fst ` set installed
         \<and> name old = name new \<and> identity old \<noteq> identity new"
proof -
  have named: "installed_named installed (name new) = Some old
      \<longleftrightarrow> old \<in> fst ` set installed \<and> name old = name new"
  proof
    assume "installed_named installed (name new) = Some old"
    then show "old \<in> fst ` set installed \<and> name old = name new"
      using installed_named_Some by blast
  next
    assume a: "old \<in> fst ` set installed \<and> name old = name new"
    then have "installed_named installed (name old) = Some old"
      using installed_named_unique [OF assms] by blast
    with a show "installed_named installed (name new) = Some old" by simp
  qed
  have "Supersede old new \<in> set (plan solution installed)
      \<longleftrightarrow> new \<in> set solution
          \<and> installed_named installed (name new) = Some old \<and> identity old \<noteq> identity new"
    unfolding in_plan_iff solution_op_Supersede by auto
  then show ?thesis unfolding named by blast
qed

lemma plan_length:
  "length (plan solution installed)
     = length solution
       + length (filter (\<lambda>(r, h). name r \<notin> name ` set solution) installed)"
proof -
  have "length (filter (\<lambda>r. name r \<notin> name ` set solution) (map fst installed))
      = length (filter (\<lambda>(r, h). name r \<notin> name ` set solution) installed)"
    by (induction installed) auto
  then show ?thesis by (simp add: plan_def)
qed

text \<open>
  C7. The operations of \<open>plan\<close> are the difference of the installed state and the
  solution, taken by name, for an installed state with at most one package of a name:
  \<^item> \<open>Unlink p\<close> is emitted exactly for the installed packages \<open>p\<close> whose name the solution
    does not have;
  \<^item> \<open>Link p\<close> exactly for the records \<open>p\<close> of the solution whose name is not installed;
  \<^item> \<open>NoOp p\<close> exactly for the records of the solution that are installed with the same
    identity;
  \<^item> \<open>Supersede old new\<close> exactly for an installed \<open>old\<close> and a record \<open>new\<close> of the solution
    with the same name and different identities;
  \<^item> and nothing is emitted twice: the plan has one operation for each record of the
    solution and one for each installed package whose name the solution does not have.

  A package of the installed state that a package of the same name replaces is thus not
  unlinked on its own: scenario C (installed \<open>P-1.0\<close>, solution \<open>P-2.0\<close>) gives the single
  operation \<open>Supersede(P-1.0, P-2.0)\<close>.
\<close>

theorem plan_set_difference:
  assumes "unique_names installed"
  shows "(Unlink p \<in> set (plan solution installed)
            \<longleftrightarrow> p \<in> fst ` set installed \<and> name p \<notin> name ` set solution)
       \<and> (Link p \<in> set (plan solution installed)
            \<longleftrightarrow> p \<in> set solution \<and> name p \<notin> name ` fst ` set installed)
       \<and> (NoOp p \<in> set (plan solution installed)
            \<longleftrightarrow> p \<in> set solution \<and> (\<exists>old \<in> fst ` set installed. identity old = identity p))
       \<and> (Supersede old new \<in> set (plan solution installed)
            \<longleftrightarrow> new \<in> set solution \<and> old \<in> fst ` set installed
                \<and> name old = name new \<and> identity old \<noteq> identity new)
       \<and> length (plan solution installed)
            = length solution
              + length (filter (\<lambda>(r, h). name r \<notin> name ` set solution) installed)"
  by (intro conjI plan_Unlink plan_Link plan_NoOp [OF assms] plan_Supersede [OF assms]
      plan_length)

theorem plan_set_difference_witness:
  "plan [package ''P'' [2, 0]] [(package ''P'' [1, 0], 0)]
     = [Supersede (package ''P'' [1, 0]) (package ''P'' [2, 0])]"
proof -
  let ?old = "package ''P'' [1, 0]" and ?new = "package ''P'' [2, 0]"
  have u: "unique_names [(?old, 0)]" by (simp add: unique_names_def)
  have n: "name ?old = name ?new" by (simp add: package_def)
  have i: "identity ?old \<noteq> identity ?new" by (simp add: package_def identity_def)
  from plan_set_difference [OF u, of ?old "[?new]" ?old ?new] n i
  have "Supersede ?old ?new \<in> set (plan [?new] [(?old, 0)])"
    and "length (plan [?new] [(?old, 0)]) = 1"
    by simp_all
  then show ?thesis
    by (cases "plan [?new] [(?old, 0)]") auto
qed

end
